theory Spec2Isabelle
  imports Complex_Main "HOL-Library.Word"
begin

section \<open>shamir.py: modular division\<close>

text \<open>
  Python integers are unbounded, so they are \<open>int\<close>. Python's \<open>//\<close> and \<open>%\<close> round
  towards minus infinity, which is what \<open>div\<close> and \<open>mod\<close> do on \<open>int\<close>.

  The body of the \<open>while prime != 0\<close> loop of \<open>_divmod\<close>, with the six loop variables
  passed along. The loop returns \<open>last_x\<close>; the caller multiplies it by \<open>num\<close>.
\<close>

function divmod_loop :: "int \<Rightarrow> int \<Rightarrow> int \<Rightarrow> int \<Rightarrow> int \<Rightarrow> int \<Rightarrow> int" where
  "divmod_loop den prime x last_x y last_y =
     (if prime \<noteq> 0 then
        (let quotient = den div prime in
           divmod_loop prime (den mod prime)
             (last_x - quotient * x) x (last_y - quotient * y) y)
      else last_x)"
  by pat_completeness auto
termination
  by (relation "measure (\<lambda>(den, prime, x, last_x, y, last_y). nat \<bar>prime\<bar>)")
     (auto simp: abs_mod_less)

declare divmod_loop.simps [simp del]

definition shamir_divmod :: "int \<Rightarrow> int \<Rightarrow> int \<Rightarrow> int" where
  "shamir_divmod num den prime = num * divmod_loop den prime 0 1 1 0"

section \<open>Errors, bytes and the random source\<close>

text \<open>
  Every exception the modelled code can raise is a value. \<open>Exit\<close> stands for the
  helper \<open>error(...)\<close>, which prints its message and ends the process.
\<close>

datatype error = ValueError | OverflowError | AttributeError | AssertionError
  | IndexError | ZeroDivisionError | TypeError | Exit

type_synonym byte = "8 word"

text \<open>
  \<open>int.from_bytes(src, 'little')\<close> and \<open>int.to_bytes(count, 'little')\<close>; the second
  raises OverflowError for a negative integer and for one that needs more than
  \<open>count\<close> bytes (\<open>BYTEORDER\<close> is \<open>'little'\<close> in shared.py).
\<close>

fun from_bytes :: "byte list \<Rightarrow> int" where
  "from_bytes [] = 0"
| "from_bytes (b # bs) = uint b + 256 * from_bytes bs"

fun le_bytes :: "int \<Rightarrow> nat \<Rightarrow> byte list" where
  "le_bytes n 0 = []"
| "le_bytes n (Suc k) = word_of_int (n mod 256) # le_bytes (n div 256) k"


text \<open>
  The random source. The operating system's generator is outside the program, so it
  is an input: a tape of raw numbers read at a cursor, and a tape of the floating-point
  draws (\<open>rand.random()\<close>, \<open>rand.lognormvariate\<close>), read at its own cursor. Every
  behaviour of the generator is some pair of tapes.

  \<open>secrets.randbelow(n)\<close> returns a number in \<open>[0, n)\<close> and raises ValueError for
  \<open>n \<le> 0\<close>; the raw number is reduced modulo \<open>n\<close>.
\<close>

record rng =
  ints :: "nat \<Rightarrow> nat"
  ipos :: nat
  reals :: "nat \<Rightarrow> real"
  rpos :: nat

definition randbelow :: "int \<Rightarrow> rng \<Rightarrow> (error + int) \<times> rng" where
  "randbelow n g =
     (if n \<le> 0 then (Inl ValueError, g)
      else (Inr (int (ints g (ipos g)) mod n), g\<lparr>ipos := ipos g + 1\<rparr>))"

section \<open>shamir.py: shares and interpolation\<close>

text \<open>\<open>randint(num)\<close> is \<open>secrets.randbelow(num + 1)\<close>.\<close>

definition randint :: "int \<Rightarrow> rng \<Rightarrow> (error + int) \<times> rng" where
  "randint num g = randbelow (num + 1) g"

text \<open>The list comprehension \<open>[randint(prime) for count in range(minimum - 1)]\<close>.\<close>

fun draw_coeffs :: "nat \<Rightarrow> int \<Rightarrow> rng \<Rightarrow> (error + int list) \<times> rng" where
  "draw_coeffs 0 prime g = (Inr [], g)"
| "draw_coeffs (Suc n) prime g =
     (case randint prime g of
        (Inl e, g') \<Rightarrow> (Inl e, g')
      | (Inr a, g') \<Rightarrow>
          (case draw_coeffs n prime g' of
             (Inl e, g'') \<Rightarrow> (Inl e, g'')
           | (Inr as, g'') \<Rightarrow> (Inr (a # as), g'')))"

text \<open>
  \<open>poly\<close> of \<open>make_shares\<close> after \<open>poly.reverse()\<close>: the secret's integer value
  followed by the random coefficients, reversed.
\<close>

definition make_poly :: "int \<Rightarrow> int \<Rightarrow> byte list \<Rightarrow> rng \<Rightarrow> (error + int list) \<times> rng" where
  "make_poly minimum prime secret g =
     (case draw_coeffs (nat (minimum - 1)) prime g of
        (Inl e, g') \<Rightarrow> (Inl e, g')
      | (Inr coeffs, g') \<Rightarrow> (Inr (rev (from_bytes secret # coeffs)), g'))"




text \<open>\<open>others = list(indexes); cur = others.pop(count)\<close>.\<close>

definition others :: "nat \<Rightarrow> int list \<Rightarrow> int list" where
  "others count indexes = take count indexes @ drop (Suc count) indexes"


definition lagrange_dens :: "int list \<Rightarrow> int list" where
  "lagrange_dens indexes =
     map (\<lambda>count. prod_list (map (\<lambda>other. indexes ! count - other) (others count indexes)))
       [0..<length indexes]"


text \<open>Primality, as the spec uses the word: a number above 1 with no proper divisor.\<close>

definition is_prime :: "int \<Rightarrow> bool" where
  "is_prime p \<longleftrightarrow> 1 < p \<and> (\<forall>d. 0 < d \<and> d dvd p \<longrightarrow> d = 1 \<or> d = p)"

section \<open>Polynomials with integer coefficients\<close>

text \<open>
  The polynomial behind the shares, as the list of its coefficients from the constant
  term up; \<open>polyfn n f\<close> says that \<open>f\<close> is such a polynomial with at most \<open>n\<close>
  coefficients. \<open>lagrange_basis\<close> is the product that \<open>interpolate\<close> forms for one
  index, at an arbitrary point instead of 0.
\<close>

fun peval :: "int list \<Rightarrow> int \<Rightarrow> int" where
  "peval [] t = 0"
| "peval (c # cs) t = c + t * peval cs t"

definition polyfn :: "nat \<Rightarrow> (int \<Rightarrow> int) \<Rightarrow> bool" where
  "polyfn n f \<longleftrightarrow> (\<exists>cs. length cs \<le> n \<and> (\<forall>t. f t = peval cs t))"



text \<open>A random source whose raw tape is constant, for concrete runs.\<close>

definition const_tape :: "nat \<Rightarrow> rng" where
  "const_tape n = \<lparr>ints = (\<lambda>_. n), ipos = 0, reals = (\<lambda>_. 0), rpos = 0\<rparr>"

section \<open>Properties of the modular division\<close>

lemma divmod_loop_bezout:
  assumes "den = last_x * a + last_y * b" and "prime = x * a + y * b"
    and "0 \<le> prime" and "prime = 0 \<longrightarrow> 0 < den"
  shows "\<exists>k. divmod_loop den prime x last_x y last_y * a + k * b = gcd den prime"
  using assms
proof (induction den prime x last_x y last_y rule: divmod_loop.induct)
  case (1 den prime x last_x y last_y)
  show ?case
  proof (cases "prime = 0")
    case True
    with "1.prems" show ?thesis
      by (subst divmod_loop.simps) (auto intro: exI [of _ last_y])
  next
    case False
    define q where "q = den div prime"
    have pos: "0 < prime" using False "1.prems" by simp
    have e1: "prime = x * a + y * b" by (rule "1.prems"(2))
    have e2: "den mod prime = (last_x - q * x) * a + (last_y - q * y) * b"
    proof -
      have "den mod prime = den - q * prime"
        unfolding q_def by (simp add: minus_div_mult_eq_mod [symmetric])
      also have "\<dots> = (last_x * a + last_y * b) - q * (x * a + y * b)"
        using "1.prems"(1,2) by simp
      finally show ?thesis by (simp add: algebra_simps)
    qed
    have e3: "0 \<le> den mod prime" using pos by simp
    have e4: "den mod prime = 0 \<longrightarrow> 0 < prime" using pos by simp
    from "1.IH" [OF False q_def e1 e2 e3 e4]
    obtain k where
      "divmod_loop prime (den mod prime) (last_x - q * x) x (last_y - q * y) y * a + k * b
         = gcd prime (den mod prime)" by blast
    moreover have "gcd prime (den mod prime) = gcd den prime"
      by (rule gcd_red_int [symmetric])
    ultimately show ?thesis
      using False by (subst divmod_loop.simps) (auto simp: Let_def q_def)
  qed
qed

lemma is_prime_coprime:
  assumes "is_prime p" and "\<not> p dvd den"
  shows "gcd den p = 1"
proof -
  have g: "0 \<le> gcd den p" by simp
  have "gcd den p \<noteq> 0" using assms(1) by (auto simp: is_prime_def)
  with g have "0 < gcd den p" by linarith
  moreover have "gcd den p dvd p" by simp
  ultimately have "gcd den p = 1 \<or> gcd den p = p"
    using assms(1) unfolding is_prime_def by blast
  moreover have "gcd den p \<noteq> p"
  proof
    assume "gcd den p = p"
    then have "p dvd den" by (metis gcd_dvd1)
    with assms(2) show False by simp
  qed
  ultimately show ?thesis by simp
qed

lemma is_prime_7: "is_prime 7"
  unfolding is_prime_def
proof (intro conjI allI impI)
  show "(1::int) < 7" by simp
next
  fix d :: int
  assume d: "0 < d \<and> d dvd 7"
  then have "d \<le> 7" by (simp add: zdvd_imp_le)
  with d consider "d = 1" | "d = 2" | "d = 3" | "d = 4" | "d = 5" | "d = 6" | "d = 7"
    by (cases "d = 1"; cases "d = 2"; cases "d = 3"; cases "d = 4"; cases "d = 5";
        cases "d = 6"; cases "d = 7"; simp)
  then show "d = 1 \<or> d = 7" using d by cases simp_all
qed

lemma divmod_loop_inverse:
  assumes "0 < p" and "gcd den p = 1"
  shows "(den * divmod_loop den p 0 1 1 0) mod p = 1 mod p"
proof -
  from divmod_loop_bezout [of den 1 den 0 p p 0 1] assms
  obtain k where "divmod_loop den p 0 1 1 0 * den + k * p = 1" by auto
  then have "den * divmod_loop den p 0 1 1 0 = 1 - k * p"
    by (simp add: algebra_simps)
  then show ?thesis by (simp add: mod_diff_eq [symmetric])
qed

text \<open>
  C10. For every prime \<open>p\<close> and all integers \<open>num\<close> and \<open>den\<close> with \<open>den\<close> not divisible
  by \<open>p\<close>, \<open>den * _divmod(num, den, p)\<close> is congruent to \<open>num\<close> modulo \<open>p\<close>.
\<close>

theorem shamir_divmod_correct:
  assumes "is_prime p" and "\<not> p dvd den"
  shows "(den * shamir_divmod num den p) mod p = num mod p"
proof -
  have pos: "0 < p" using assms(1) by (simp add: is_prime_def)
  have inv: "(den * divmod_loop den p 0 1 1 0) mod p = 1 mod p"
    by (rule divmod_loop_inverse [OF pos is_prime_coprime [OF assms]])
  have "(den * shamir_divmod num den p) mod p
      = (num * (den * divmod_loop den p 0 1 1 0)) mod p"
    by (simp add: shamir_divmod_def algebra_simps)
  also have "\<dots> = (num * ((den * divmod_loop den p 0 1 1 0) mod p)) mod p"
    by (simp add: mod_mult_right_eq)
  also have "\<dots> = (num * (1 mod p)) mod p" by (simp only: inv)
  also have "\<dots> = num mod p" by (simp add: mod_mult_right_eq)
  finally show ?thesis .
qed

theorem shamir_divmod_correct_witness:
  "is_prime 7 \<and> \<not> (7::int) dvd 3 \<and> (3 * shamir_divmod 5 3 7) mod 7 = 5 mod 7"
  using shamir_divmod_correct [of 7 3 5] is_prime_7 by simp

section \<open>Root counting for integer polynomials\<close>




lemma polyfn_mono: "polyfn n f \<Longrightarrow> n \<le> m \<Longrightarrow> polyfn m f"
  unfolding polyfn_def by (meson le_trans)




















lemma length_lagrange_dens [simp]: "length (lagrange_dens xs) = length xs"
  by (simp add: lagrange_dens_def)



section \<open>The Lagrange identity over the integers\<close>


section \<open>Shares and interpolation modulo a prime\<close>




lemma length_le_bytes [simp]: "length (le_bytes n k) = k"
  by (induction k arbitrary: n) simp_all
















text \<open>
  C6. \<open>randint(prime)\<close> draws from \<open>0..prime\<close> inclusive: when the source returns
  \<open>prime\<close> itself, that is the coefficient (here 7 for the prime 7), which is not
  strictly below the prime.
\<close>

theorem make_poly_coefficient_equals_prime:
  "make_poly 2 7 [5] (const_tape 7) = (Inr [7, 5], (const_tape 7)\<lparr>ipos := 1\<rparr>)"
  by (simp add: make_poly_def const_tape_def randint_def randbelow_def)

end
